theory Spec2Isabelle
  imports Main "HOL-Library.Multiset"
begin

section \<open>The star-graph connected-components resolver of dedup_utils.py\<close>

text \<open>
  The source works on Spark RDDs of pairs of Python integers. A NodeID is an unbounded
  integer, an edge is a pair of NodeIDs, and an RDD is modelled as a list: the elements
  with their multiplicities, in some order. Spark fixes no order for the elements of an
  RDD, so the order of the lists below is one admissible choice, and statements that
  compare two collections compare them as sets or multisets.
\<close>

type_synonym node = int
type_synonym edge = "node \<times> node"

subsection \<open>The RDD operations the resolver calls\<close>

definition flatMap :: "('a \<Rightarrow> 'b list) \<Rightarrow> 'a list \<Rightarrow> 'b list" where
  "flatMap f xs = concat (map f xs)"

text \<open>
  \<open>groupByKey\<close>: one pair per key that occurs, the key with all the values it occurs
  with (repetitions kept).
\<close>

definition groupByKey :: "('k \<times> 'v) list \<Rightarrow> ('k \<times> 'v list) list" where
  "groupByKey kvs =
     map (\<lambda>k. (k, map snd (filter (\<lambda>kv. fst kv = k) kvs))) (remdups (map fst kvs))"

definition distinct_rdd :: "'a list \<Rightarrow> 'a list" where
  "distinct_rdd xs = remdups xs"

definition subtract :: "'a list \<Rightarrow> 'a list \<Rightarrow> 'a list" where
  "subtract xs ys = filter (\<lambda>x. x \<notin> set ys) xs"

definition union_rdd :: "'a list \<Rightarrow> 'a list \<Rightarrow> 'a list" where
  "union_rdd xs ys = xs @ ys"

definition collect :: "'a list \<Rightarrow> 'a list" where
  "collect xs = xs"

text \<open>\<open>cache\<close> asks Spark to keep an RDD in memory; it returns the RDD it is called on.\<close>

definition cache :: "'a list \<Rightarrow> 'a list" where
  "cache xs = xs"

subsection \<open>The map and reduce functions\<close>

definition large_star_map :: "edge \<Rightarrow> edge list" where
  "large_star_map edge = [(fst edge, snd edge), (snd edge, fst edge)]"

text \<open>
  Python's \<open>min(nodes)\<close> raises on an empty list only; \<open>nodes\<close> always holds \<open>x\<close>, so
  \<open>min_list\<close> is applied to a non-empty list.
\<close>

definition large_star_reduce :: "node \<times> node list \<Rightarrow> edge list" where
  "large_star_reduce grp =
     (case grp of (x, neighbors) \<Rightarrow>
        let nodes = x # neighbors;
            minimum = min_list nodes
        in map (\<lambda>n. (n, minimum)) (filter (\<lambda>n. n > x) nodes))"

definition small_star_map :: "edge \<Rightarrow> edge" where
  "small_star_map edge =
     (case edge of (x, y) \<Rightarrow> if y \<le> x then (x, y) else (y, x))"

definition small_star_reduce :: "node \<times> node list \<Rightarrow> edge list" where
  "small_star_reduce grp =
     (case grp of (x, neighbors) \<Rightarrow>
        let nodes = x # neighbors;
            minimum = min_list nodes
        in map (\<lambda>n. (n, minimum)) (filter (\<lambda>n. n \<noteq> minimum) nodes))"

subsection \<open>The driver loop\<close>

text \<open>
  \<open>while True\<close> with a \<open>break\<close>: the loop is a partial function, and \<open>None\<close> stands for
  a run that never leaves the loop. The body is the source's, call by call; \<open>a'\<close> is the
  value the source assigns to \<open>a\<close> in the second statement of the body.
\<close>

partial_function (option) find_components :: "edge list \<Rightarrow> edge list option" where
  "find_components a =
     (let b = cache (distinct_rdd (flatMap large_star_reduce
                (groupByKey (flatMap large_star_map a))));
          a' = cache (distinct_rdd (flatMap small_star_reduce
                (groupByKey (map small_star_map b))));
          changes = collect (union_rdd (subtract a' b) (subtract b a'))
      in if length changes = 0 then Some (collect a') else find_components a')"

declare find_components.simps [code]

text \<open>
  The two pipelines of the loop body, named after the phases they implement: \<open>b\<close> is the
  large-star phase of \<open>a\<close>, and the new \<open>a\<close> is the small-star phase of \<open>b\<close>.
\<close>

definition large_star_phase :: "edge list \<Rightarrow> edge list" where
  "large_star_phase a =
     cache (distinct_rdd (flatMap large_star_reduce (groupByKey (flatMap large_star_map a))))"

definition small_star_phase :: "edge list \<Rightarrow> edge list" where
  "small_star_phase b =
     cache (distinct_rdd (flatMap small_star_reduce (groupByKey (map small_star_map b))))"

text \<open>One round of the loop: the edge list the loop body assigns to \<open>a\<close>.\<close>

definition sgcc_round :: "edge list \<Rightarrow> edge list" where
  "sgcc_round a = small_star_phase (large_star_phase a)"

text \<open>
  The same loop body, given up after \<open>cap\<close> rounds: \<open>None\<close> when the change set is
  still non-empty after \<open>cap\<close> rounds. The source has no such bound; this unrolling only
  serves to count the rounds of a run.
\<close>

fun find_components_within :: "nat \<Rightarrow> edge list \<Rightarrow> edge list option" where
  "find_components_within 0 a = None"
| "find_components_within (Suc cap) a =
     (let b = large_star_phase a;
          a' = small_star_phase b;
          changes = collect (union_rdd (subtract a' b) (subtract b a'))
      in if length changes = 0 then Some (collect a') else find_components_within cap a')"

subsection \<open>Components of the input graph\<close>

text \<open>
  Two nodes are connected when a path of edges, each read in either direction, leads from
  one to the other. The component of a node is the set of nodes connected to it, and its
  canonical identity is its least member.
\<close>

definition connected :: "edge list \<Rightarrow> node \<Rightarrow> node \<Rightarrow> bool" where
  "connected es u v \<longleftrightarrow> (u, v) \<in> (set es \<union> (set es)\<inverse>)\<^sup>*"

definition component :: "edge list \<Rightarrow> node \<Rightarrow> node set" where
  "component es n = {v. connected es n v}"

definition component_min :: "edge list \<Rightarrow> node \<Rightarrow> node" where
  "component_min es n = Min (component es n)"

subsection \<open>Notions used in the proofs\<close>

text \<open>
  The neighbours of a node in an edge set read as undirected, and the least node among a
  node and its neighbours: the value both reduce functions call \<open>minimum\<close>.
\<close>

definition nbrs :: "edge set \<Rightarrow> node \<Rightarrow> node set" where
  "nbrs A x = {y. (x, y) \<in> A \<or> (y, x) \<in> A}"

definition local_min :: "edge set \<Rightarrow> node \<Rightarrow> node" where
  "local_min A x = Min (insert x (nbrs A x))"

text \<open>An edge set whose every pair points from a node to a strictly smaller one.\<close>

definition downward :: "edge set \<Rightarrow> bool" where
  "downward A \<longleftrightarrow> (\<forall>e\<in>A. snd e < fst e)"

definition bounded_below :: "int \<Rightarrow> edge set \<Rightarrow> bool" where
  "bounded_below c A \<longleftrightarrow> (\<forall>e\<in>A. c \<le> snd e)"

text \<open>An edge set in which no node is the left element of two different pairs.\<close>

definition single_valued_edges :: "edge set \<Rightarrow> bool" where
  "single_valued_edges A \<longleftrightarrow> (\<forall>n m m'. (n, m) \<in> A \<and> (n, m') \<in> A \<longrightarrow> m = m')"

text \<open>
  The measure of the termination proof: the sum, over the edges, of the distances of both
  endpoints from a lower bound \<open>c\<close> of all nodes.
\<close>

definition weight :: "int \<Rightarrow> edge \<Rightarrow> nat" where
  "weight c e = nat (fst e - c) + nat (snd e - c)"

definition potential :: "int \<Rightarrow> edge set \<Rightarrow> nat" where
  "potential c A = sum (weight c) A"

text \<open>
  What the small-star reduce makes of one edge \<open>(x, s)\<close> of a downward edge set: the edge
  itself when \<open>s\<close> is the minimum of the group of \<open>x\<close>, the edge from \<open>s\<close> to that minimum
  otherwise.
\<close>

definition small_star_edge :: "edge set \<Rightarrow> edge \<Rightarrow> edge" where
  "small_star_edge B e =
     (if snd e = local_min B (fst e) then e else (snd e, local_min B (fst e)))"

section \<open>The phases as functions of edge sets\<close>

lemma set_flatMap: "set (flatMap f xs) = (\<Union>x\<in>set xs. set (f x))"
  by (simp add: flatMap_def)

lemma set_large_star_map: "set (flatMap large_star_map a) = set a \<union> (set a)\<inverse>"
  by (auto simp: set_flatMap large_star_map_def)

lemma in_groupByKey:
  "(k, vs) \<in> set (groupByKey kvs) \<longleftrightarrow>
     k \<in> fst ` set kvs \<and> vs = map snd (filter (\<lambda>kv. fst kv = k) kvs)"
  by (auto simp: groupByKey_def)

lemma set_group_values: "set (map snd (filter (\<lambda>kv. fst kv = k) kvs)) = {v. (k, v) \<in> set kvs}"
  by force

lemma min_list_Cons_Min: "min_list (x # xs) = Min (insert x (set xs))"
  using min_list_Min [of "x # xs"] by simp

lemma in_large_star_reduce:
  "(n, m) \<in> set (large_star_reduce (x, ns)) \<longleftrightarrow>
     n \<in> set ns \<and> x < n \<and> m = Min (insert x (set ns))"
  by (auto simp: large_star_reduce_def Let_def min_list_Cons_Min simp del: min_list.simps)

lemma in_small_star_reduce:
  "(n, m) \<in> set (small_star_reduce (x, ns)) \<longleftrightarrow>
     (n = x \<or> n \<in> set ns) \<and> n \<noteq> m \<and> m = Min (insert x (set ns))"
  by (auto simp: small_star_reduce_def Let_def min_list_Cons_Min simp del: min_list.simps)

lemma in_flatMap_groupByKey:
  "e \<in> set (flatMap f (groupByKey kvs)) \<longleftrightarrow>
     (\<exists>k. k \<in> fst ` set kvs \<and> e \<in> set (f (k, map snd (filter (\<lambda>kv. fst kv = k) kvs))))"
  unfolding set_flatMap groupByKey_def by (simp add: image_iff Bex_def) blast

lemma in_large_star_phase:
  "(n, m) \<in> set (large_star_phase a) \<longleftrightarrow>
     (\<exists>x. n \<in> nbrs (set a) x \<and> x < n \<and> m = local_min (set a) x)"
proof -
  have vals: "set (map snd (filter (\<lambda>kv. fst kv = k) (flatMap large_star_map a))) = nbrs (set a) k" for k
    unfolding set_group_values set_large_star_map nbrs_def by auto
  have "(n, m) \<in> set (large_star_phase a) \<longleftrightarrow>
        (\<exists>x. x \<in> fst ` (set a \<union> (set a)\<inverse>) \<and> n \<in> nbrs (set a) x \<and> x < n \<and> m = local_min (set a) x)"
    by (simp only: large_star_phase_def cache_def distinct_rdd_def set_remdups in_flatMap_groupByKey
        in_large_star_reduce vals set_large_star_map local_min_def)
  also have "\<dots> \<longleftrightarrow> (\<exists>x. n \<in> nbrs (set a) x \<and> x < n \<and> m = local_min (set a) x)"
    by (force simp: nbrs_def)
  finally show ?thesis .
qed

lemma set_small_star_map:
  "set (map small_star_map b) = {(x, y). y \<le> x \<and> y \<in> nbrs (set b) x}"
  by (force simp: small_star_map_def nbrs_def split: if_splits)

lemma finite_nbrs: "finite A \<Longrightarrow> finite (nbrs A x)"
proof -
  assume "finite A"
  then have "finite (fst ` A \<union> snd ` A)" by simp
  moreover have "nbrs A x \<subseteq> fst ` A \<union> snd ` A" by (force simp: nbrs_def)
  ultimately show ?thesis by (rule rev_finite_subset)
qed

lemma local_min_in: "finite A \<Longrightarrow> local_min A x \<in> insert x (nbrs A x)"
  unfolding local_min_def by (intro Min_in) (auto simp: finite_nbrs)

lemma local_min_le: "finite A \<Longrightarrow> y \<in> insert x (nbrs A x) \<Longrightarrow> local_min A x \<le> y"
  unfolding local_min_def by (intro Min_le) (auto simp: finite_nbrs)

lemma local_min_le_self: "finite A \<Longrightarrow> local_min A x \<le> x"
  by (simp add: local_min_le)

lemma local_min_lower:
  assumes "finite A"
  shows "Min (insert x {y. y \<le> x \<and> y \<in> nbrs A x}) = local_min A x"
proof -
  have fin: "finite (insert x (nbrs A x))"
    using assms by (simp add: finite_nbrs)
  have le: "local_min A x \<le> y" if "y \<in> insert x (nbrs A x)" for y
    unfolding local_min_def using fin that by (rule Min_le)
  have mem: "local_min A x \<in> insert x (nbrs A x)"
    unfolding local_min_def using fin by (intro Min_in) auto
  have "local_min A x \<le> x" using le by simp
  with mem have "local_min A x \<in> insert x {y. y \<le> x \<and> y \<in> nbrs A x}" by auto
  moreover have "finite (insert x {y. y \<le> x \<and> y \<in> nbrs A x})"
    using fin by simp
  ultimately show ?thesis using le by (intro Min_eqI) auto
qed

lemma in_small_star_phase:
  "(n, m) \<in> set (small_star_phase b) \<longleftrightarrow>
     (\<exists>x. (n = x \<or> (n \<in> nbrs (set b) x \<and> n \<le> x)) \<and> n \<noteq> m \<and> m = local_min (set b) x)"
proof -
  have vals: "set (map snd (filter (\<lambda>kv. fst kv = k) (map small_star_map b))) = {y. y \<le> k \<and> y \<in> nbrs (set b) k}" for k
    unfolding set_group_values set_small_star_map by auto
  have "(n, m) \<in> set (small_star_phase b) \<longleftrightarrow>
        (\<exists>x. x \<in> fst ` {(x, y). y \<le> x \<and> y \<in> nbrs (set b) x} \<and> 
          (n = x \<or> n \<in> {y. y \<le> x \<and> y \<in> nbrs (set b) x}) \<and> n \<noteq> m \<and> m = local_min (set b) x)"
    by (simp only: small_star_phase_def cache_def distinct_rdd_def set_remdups in_flatMap_groupByKey
        in_small_star_reduce vals set_small_star_map local_min_lower[OF finite_set])
  also have "\<dots> \<longleftrightarrow> (\<exists>x. (n = x \<or> (n \<in> nbrs (set b) x \<and> n \<le> x)) \<and> n \<noteq> m \<and> m = local_min (set b) x)"
    using local_min_in [of "set b"] local_min_le_self [of "set b"] by (auto simp: image_iff) force+
  finally show ?thesis .
qed

lemma large_star_phase_downward: "downward (set (large_star_phase a))"
  unfolding downward_def
proof
  fix e assume "e \<in> set (large_star_phase a)"
  then have "(fst e, snd e) \<in> set (large_star_phase a)" by simp
  then obtain x where "x < fst e" "snd e = local_min (set a) x"
    unfolding in_large_star_phase by blast
  then show "snd e < fst e"
    using local_min_le_self [of "set a" x] by simp
qed

lemma small_star_phase_downward: "downward (set (small_star_phase b))"
  unfolding downward_def
proof
  fix e assume "e \<in> set (small_star_phase b)"
  then have "(fst e, snd e) \<in> set (small_star_phase b)" by simp
  then obtain x where x: "fst e = x \<or> (fst e \<in> nbrs (set b) x \<and> fst e \<le> x)"
    and ne: "fst e \<noteq> snd e" and m: "snd e = local_min (set b) x"
    unfolding in_small_star_phase by blast
  from x have "fst e \<in> insert x (nbrs (set b) x)" by auto
  then have "snd e \<le> fst e"
    unfolding m by (intro local_min_le) simp_all
  with ne show "snd e < fst e" by simp
qed

lemma distinct_large_star_phase: "distinct (large_star_phase a)"
  by (simp add: large_star_phase_def cache_def distinct_rdd_def)

lemma distinct_small_star_phase: "distinct (small_star_phase a)"
  by (simp add: small_star_phase_def cache_def distinct_rdd_def)

lemma changes_empty_iff:
  "length (collect (union_rdd (subtract a' b) (subtract b a'))) = 0 \<longleftrightarrow> set a' = set b"
  by (auto simp: collect_def union_rdd_def subtract_def filter_empty_conv)

lemma find_components_unfold:
  "find_components a =
     (if set (small_star_phase (large_star_phase a)) = set (large_star_phase a)
      then Some (small_star_phase (large_star_phase a))
      else find_components (small_star_phase (large_star_phase a)))"
  by (subst find_components.simps)
    (simp only: Let_def changes_empty_iff flip: large_star_phase_def small_star_phase_def,
     simp only: collect_def)

lemma find_components_within_Suc:
  "find_components_within (Suc cap) a =
     (if set (small_star_phase (large_star_phase a)) = set (large_star_phase a)
      then Some (small_star_phase (large_star_phase a))
      else find_components_within cap (small_star_phase (large_star_phase a)))"
  by (simp only: find_components_within.simps Let_def changes_empty_iff, simp only: collect_def)

lemma find_components_induct [consumes 1, case_names converged iterate]:
  assumes "find_components a = Some r"
    and "\<And>a. set (small_star_phase (large_star_phase a)) = set (large_star_phase a)
            \<Longrightarrow> P a (small_star_phase (large_star_phase a))"
    and "\<And>a r. set (small_star_phase (large_star_phase a)) \<noteq> set (large_star_phase a)
            \<Longrightarrow> find_components (small_star_phase (large_star_phase a)) = Some r
            \<Longrightarrow> P (small_star_phase (large_star_phase a)) r \<Longrightarrow> P a r"
  shows "P a r"
proof -
  have "find_components a = Some r \<and> P a r"
  proof (rule find_components.raw_induct [OF _ assms(1)])
    fix f a r
    assume IH: "\<And>x y. f x = Some y \<Longrightarrow> find_components x = Some y \<and> P x y"
      and "(let b = cache (distinct_rdd (flatMap large_star_reduce
                       (groupByKey (flatMap large_star_map a))));
                a' = cache (distinct_rdd (flatMap small_star_reduce
                       (groupByKey (map small_star_map b))));
                changes = collect (union_rdd (subtract a' b) (subtract b a'))
            in if length changes = 0 then Some (collect a') else f a') = Some r"
    then have body: "(let b = large_star_phase a;
                      a' = small_star_phase b;
                      changes = collect (union_rdd (subtract a' b) (subtract b a'))
                  in if length changes = 0 then Some (collect a') else f a') = Some r"
      by (simp only: Let_def flip: large_star_phase_def small_star_phase_def)
    show "find_components a = Some r \<and> P a r"
    proof (cases "set (small_star_phase (large_star_phase a)) = set (large_star_phase a)")
      case True
      with body have "r = small_star_phase (large_star_phase a)"
        by (simp only: Let_def changes_empty_iff, simp only: collect_def if_True option.inject)
      with True show ?thesis
        using assms(2) [of a] find_components_unfold [of a] by simp
    next
      case False
      with body have "f (small_star_phase (large_star_phase a)) = Some r"
        by (simp only: Let_def changes_empty_iff, simp only: collect_def if_False)
      from IH [OF this] False show ?thesis
        using assms(3) [of a r] find_components_unfold [of a] by simp
    qed
  qed
  then show ?thesis ..
qed

lemma downward_nbrs_less: "downward A \<Longrightarrow> n \<in> nbrs A x \<Longrightarrow> x < n \<longleftrightarrow> (n, x) \<in> A"
  by (force simp: downward_def nbrs_def)

lemma downward_nbrs_le: "downward A \<Longrightarrow> n \<in> nbrs A x \<and> n \<le> x \<longleftrightarrow> (x, n) \<in> A"
  by (force simp: downward_def nbrs_def)

lemma large_star_phase_image:
  assumes "downward (set a)"
  shows "set (large_star_phase a) = (\<lambda>e. (fst e, local_min (set a) (snd e))) ` set a"
proof (rule set_eqI)
  fix e :: edge
  obtain n m where e: "e = (n, m)" by (cases e)
  have "(n, m) \<in> set (large_star_phase a) \<longleftrightarrow> (\<exists>x. (n, x) \<in> set a \<and> m = local_min (set a) x)"
    unfolding in_large_star_phase using downward_nbrs_less [OF assms]
    by (metis (no_types, lifting) mem_Collect_eq nbrs_def)
  then show "e \<in> set (large_star_phase a) \<longleftrightarrow> e \<in> (\<lambda>e. (fst e, local_min (set a) (snd e))) ` set a"
    unfolding e by (force simp: image_iff)
qed

lemma small_star_phase_image:
  assumes "downward (set b)"
  shows "set (small_star_phase b) = small_star_edge (set b) ` set b"
proof (rule set_eqI)
  fix e :: edge
  obtain n m where e: "e = (n, m)" by (cases e)
  have fin: "finite (set b)" by simp
  have "(n, m) \<in> set (small_star_phase b) \<longleftrightarrow>
        (\<exists>x. (n = x \<or> (x, n) \<in> set b) \<and> n \<noteq> m \<and> m = local_min (set b) x)"
    unfolding in_small_star_phase downward_nbrs_le [OF assms] ..
  also have "\<dots> \<longleftrightarrow> (n, m) \<in> small_star_edge (set b) ` set b"
  proof
    assume "\<exists>x. (n = x \<or> (x, n) \<in> set b) \<and> n \<noteq> m \<and> m = local_min (set b) x"
    then obtain x where x: "n = x \<or> (x, n) \<in> set b" and ne: "n \<noteq> m"
      and m: "m = local_min (set b) x" by blast
    from x show "(n, m) \<in> small_star_edge (set b) ` set b"
    proof
      assume "n = x"
      with ne m local_min_in [OF fin, of x] have "m \<in> nbrs (set b) x" by auto
      moreover have "m \<le> x" unfolding m by (rule local_min_le_self [OF fin])
      ultimately have "(x, m) \<in> set b" using downward_nbrs_le [OF assms] by blast
      moreover have "small_star_edge (set b) (x, m) = (n, m)"
        using m \<open>n = x\<close> by (simp add: small_star_edge_def)
      ultimately show ?thesis by (metis image_eqI)
    next
      assume "(x, n) \<in> set b"
      moreover have "small_star_edge (set b) (x, n) = (n, m)"
        using m ne by (simp add: small_star_edge_def)
      ultimately show ?thesis by (metis image_eqI)
    qed
  next
    assume "(n, m) \<in> small_star_edge (set b) ` set b"
    then obtain x s where xs: "(x, s) \<in> set b" and eq: "(n, m) = small_star_edge (set b) (x, s)"
      by auto
    from xs assms have "s < x" by (auto simp: downward_def)
    show "\<exists>x. (n = x \<or> (x, n) \<in> set b) \<and> n \<noteq> m \<and> m = local_min (set b) x"
    proof (cases "s = local_min (set b) x")
      case True
      with eq have "n = x" "m = s" by (simp_all add: small_star_edge_def)
      with True \<open>s < x\<close> show ?thesis by auto
    next
      case False
      with eq have "n = s" "m = local_min (set b) x" by (simp_all add: small_star_edge_def)
      with False xs show ?thesis by auto
    qed
  qed
  finally show "e \<in> set (small_star_phase b) \<longleftrightarrow> e \<in> small_star_edge (set b) ` set b"
    unfolding e .
qed

section \<open>Termination of the driver loop\<close>

lemma sum_image_weight_le:
  fixes w :: "'a \<Rightarrow> nat"
  assumes "finite A" and "\<And>e. e \<in> A \<Longrightarrow> w (h e) \<le> w e"
  shows "sum w (h ` A) \<le> sum w A"
proof -
  have "sum w (h ` A) \<le> sum (w \<circ> h) A"
    using assms(1) by (intro sum_image_le) simp_all
  also have "\<dots> \<le> sum w A"
    using assms(2) by (intro sum_mono) simp
  finally show ?thesis .
qed

lemma sum_image_weight_less:
  fixes w :: "'a \<Rightarrow> nat"
  assumes "finite A" and "\<And>e. e \<in> A \<Longrightarrow> w (h e) \<le> w e"
    and "e0 \<in> A" and "w (h e0) < w e0"
  shows "sum w (h ` A) < sum w A"
proof -
  have "sum w (h ` A) \<le> sum (w \<circ> h) A"
    using assms(1) by (intro sum_image_le) simp_all
  also have "\<dots> < sum w A"
    using assms by (intro sum_strict_mono_ex1) auto
  finally show ?thesis .
qed

lemma potential_large_star_phase:
  assumes "downward (set a)"
  shows "potential c (set (large_star_phase a)) \<le> potential c (set a)"
  unfolding potential_def large_star_phase_image [OF assms]
proof (rule sum_image_weight_le)
  fix e assume "e \<in> set a"
  have "local_min (set a) (snd e) \<le> snd e"
    by (rule local_min_le_self) simp
  then show "weight c (fst e, local_min (set a) (snd e)) \<le> weight c e"
    by (simp add: weight_def)
qed simp

lemma small_star_edge_weight:
  assumes "downward B" "bounded_below c B" "finite B" "e \<in> B"
  shows "weight c (small_star_edge B e) \<le> weight c e"
    and "small_star_edge B e \<noteq> e \<Longrightarrow> weight c (small_star_edge B e) < weight c e"
proof -
  obtain x s where e: "e = (x, s)" by (cases e)
  from assms e have sx: "s < x" and cs: "c \<le> s"
    by (auto simp: downward_def bounded_below_def)
  have "s \<in> insert x (nbrs B x)" using assms(4) e by (simp add: nbrs_def)
  then have le: "local_min B x \<le> s" by (rule local_min_le [OF assms(3)])
  show "weight c (small_star_edge B e) \<le> weight c e"
    using le sx cs by (auto simp: small_star_edge_def weight_def e)
  show "weight c (small_star_edge B e) < weight c e" if "small_star_edge B e \<noteq> e"
    using that le sx cs by (auto simp: small_star_edge_def weight_def e split: if_splits)
qed

lemma potential_small_star_phase:
  assumes "downward (set b)" "bounded_below c (set b)"
    and "set (small_star_phase b) \<noteq> set b"
  shows "potential c (set (small_star_phase b)) < potential c (set b)"
proof -
  have "\<exists>e\<in>set b. small_star_edge (set b) e \<noteq> e"
  proof (rule ccontr)
    assume "\<not> ?thesis"
    then have "small_star_edge (set b) ` set b = set b" by force
    with assms(3) show False by (simp add: small_star_phase_image [OF assms(1)])
  qed
  then obtain e0 where e0: "e0 \<in> set b" "small_star_edge (set b) e0 \<noteq> e0" by blast
  show ?thesis
    unfolding potential_def small_star_phase_image [OF assms(1)]
  proof (rule sum_image_weight_less [OF _ _ e0(1)])
    show "weight c (small_star_edge (set b) e0) < weight c e0"
      using small_star_edge_weight(2) [OF assms(1,2) _ e0(1)] e0(2) by simp
    show "weight c (small_star_edge (set b) e) \<le> weight c e" if "e \<in> set b" for e
      using small_star_edge_weight(1) [OF assms(1,2) _ that] by simp
  qed simp
qed

lemma local_min_bounded_below:
  assumes "downward A" "bounded_below c A" "finite A" "c \<le> x"
  shows "c \<le> local_min A x"
proof -
  have "c \<le> y" if "y \<in> nbrs A x" for y
    using that assms by (force simp: nbrs_def downward_def bounded_below_def)
  with assms(4) local_min_in [OF assms(3), of x] show ?thesis by auto
qed

lemma bounded_below_large_star_phase:
  assumes "downward (set a)" "bounded_below c (set a)"
  shows "bounded_below c (set (large_star_phase a))"
  unfolding bounded_below_def large_star_phase_image [OF assms(1)]
proof
  fix e assume "e \<in> (\<lambda>e. (fst e, local_min (set a) (snd e))) ` set a"
  then obtain e' where e': "e' \<in> set a" "e = (fst e', local_min (set a) (snd e'))" by blast
  from e'(1) assms(2) have "c \<le> snd e'" by (simp add: bounded_below_def)
  then have "c \<le> local_min (set a) (snd e')"
    by (intro local_min_bounded_below [OF assms]) simp_all
  then show "c \<le> snd e" by (simp add: e'(2))
qed

lemma bounded_below_small_star_phase:
  assumes "downward (set b)" "bounded_below c (set b)"
  shows "bounded_below c (set (small_star_phase b))"
  unfolding bounded_below_def small_star_phase_image [OF assms(1)]
proof
  fix e assume "e \<in> small_star_edge (set b) ` set b"
  then obtain e' where e': "e' \<in> set b" "e = small_star_edge (set b) e'" by blast
  from e'(1) assms have "c \<le> snd e'" "snd e' < fst e'"
    by (simp_all add: bounded_below_def downward_def)
  then have "c \<le> local_min (set b) (fst e')"
    by (intro local_min_bounded_below [OF assms]) simp_all
  with \<open>c \<le> snd e'\<close> show "c \<le> snd e"
    by (simp add: e'(2) small_star_edge_def)
qed

lemma find_components_terminates_downward:
  assumes "downward (set a)" "bounded_below c (set a)"
  shows "\<exists>r. find_components a = Some r"
  using assms
proof (induction "potential c (set a)" arbitrary: a rule: less_induct)
  case less
  let ?b = "large_star_phase a"
  let ?a' = "small_star_phase ?b"
  show ?case
  proof (cases "set ?a' = set ?b")
    case True
    then show ?thesis by (subst find_components_unfold) simp
  next
    case False
    have b: "downward (set ?b)" "bounded_below c (set ?b)"
      using less.prems by (simp_all add: large_star_phase_downward bounded_below_large_star_phase)
    have "potential c (set ?a') < potential c (set ?b)"
      using b False by (rule potential_small_star_phase)
    also have "\<dots> \<le> potential c (set a)"
      using less.prems(1) by (rule potential_large_star_phase)
    finally have "\<exists>r. find_components ?a' = Some r"
      using b by (intro less.hyps) (simp_all add: small_star_phase_downward bounded_below_small_star_phase)
    with False show ?thesis by (subst find_components_unfold) simp
  qed
qed

lemma find_components_total: "\<exists>r. find_components a = Some r"
proof -
  let ?b = "large_star_phase a"
  let ?a' = "small_star_phase ?b"
  show ?thesis
  proof (cases "set ?a' = set ?b")
    case True
    then show ?thesis by (subst find_components_unfold) simp
  next
    case False
    have "bounded_below (Min (insert 0 (snd ` set ?a'))) (set ?a')"
      by (simp add: bounded_below_def)
    then have "\<exists>r. find_components ?a' = Some r"
      by (intro find_components_terminates_downward) (rule small_star_phase_downward)
    with False show ?thesis by (subst find_components_unfold) simp
  qed
qed

subsection \<open>Counting the rounds\<close>

lemma find_components_within_imp:
  "find_components_within cap a = Some r \<Longrightarrow> find_components a = Some r"
proof (induction cap arbitrary: a)
  case 0
  then show ?case by simp
next
  case (Suc cap)
  show ?case
  proof (cases "set (small_star_phase (large_star_phase a)) = set (large_star_phase a)")
    case True
    with Suc.prems show ?thesis
      by (simp add: find_components_within_Suc find_components_unfold [of a] del: find_components_within.simps)
  next
    case False
    with Suc.prems have "find_components_within cap (small_star_phase (large_star_phase a)) = Some r"
      by (simp add: find_components_within_Suc del: find_components_within.simps)
    then have "find_components (small_star_phase (large_star_phase a)) = Some r"
      by (rule Suc.IH)
    with False show ?thesis by (simp add: find_components_unfold [of a])
  qed
qed

lemma find_components_imp_within:
  "find_components a = Some r \<Longrightarrow> \<exists>cap. find_components_within cap a = Some r"
proof (induction rule: find_components_induct)
  case (converged a)
  then have "find_components_within (Suc 0) a = Some (small_star_phase (large_star_phase a))"
    by (simp add: find_components_within_Suc del: find_components_within.simps)
  then show ?case ..
next
  case (iterate a r)
  then obtain cap where "find_components_within cap (small_star_phase (large_star_phase a)) = Some r"
    by blast
  with iterate(1) have "find_components_within (Suc cap) a = Some r"
    by (simp add: find_components_within_Suc del: find_components_within.simps)
  then show ?case ..
qed

lemma find_components_within_mono:
  "find_components_within cap a = Some r \<Longrightarrow> cap \<le> k \<Longrightarrow> find_components_within k a = Some r"
proof (induction cap arbitrary: a k)
  case 0
  then show ?case by simp
next
  case (Suc cap)
  from Suc.prems(2) obtain k' where k: "k = Suc k'" "cap \<le> k'" by (cases k) auto
  show ?case
  proof (cases "set (small_star_phase (large_star_phase a)) = set (large_star_phase a)")
    case True
    with Suc.prems(1) show ?thesis unfolding k(1)
      by (simp add: find_components_within_Suc del: find_components_within.simps)
  next
    case False
    with Suc.prems(1) have "find_components_within cap (small_star_phase (large_star_phase a)) = Some r"
      by (simp add: find_components_within_Suc del: find_components_within.simps)
    then have "find_components_within k' (small_star_phase (large_star_phase a)) = Some r"
      using k(2) by (rule Suc.IH)
    with False show ?thesis unfolding k(1)
      by (simp add: find_components_within_Suc del: find_components_within.simps)
  qed
qed

text \<open>
  The loop returns for every input: some number \<open>cap\<close> of rounds suffices, and the
  unbounded loop of the source returns the same list. The statement needs no assumption
  on the edges; in particular it covers every finite list of edges \<open>(u, v)\<close> with
  \<open>u \<noteq> v\<close>. It says nothing on the edge set at which the loop stops.
\<close>

theorem find_components_terminates:
  "\<exists>cap r. find_components_within cap edges = Some r \<and> find_components edges = Some r"
proof -
  obtain r where r: "find_components edges = Some r"
    using find_components_total by blast
  then obtain cap where "find_components_within cap edges = Some r"
    using find_components_imp_within by blast
  with r show ?thesis by blast
qed

text \<open>
  Claim C3, evaluated on the path \<open>1 - 2 - 3 - 4\<close>. The loop terminates, in its first
  round, but not at its fixed point: the edge set it stops at and returns is changed by one
  more round of the two phases.
\<close>

theorem find_components_stops_before_fixed_point:
  "find_components_within 1 [(1, 2), (2, 3), (3, 4)] = Some [(2, 1), (3, 1), (4, 2)] \<and>
   find_components [(1, 2), (2, 3), (3, 4)] = Some [(2, 1), (3, 1), (4, 2)] \<and>
   set (sgcc_round [(2, 1), (3, 1), (4, 2)]) \<noteq> set ([(2, 1), (3, 1), (4, 2)] :: edge list)"
proof -
  have "find_components_within 1 [(1, 2), (2, 3), (3, 4)] = Some [(2, 1), (3, 1), (4, 2)]"
    by code_simp
  moreover have "find_components [(1, 2), (2, 3), (3, 4)] = Some [(2, 1), (3, 1), (4, 2)]"
    by code_simp
  moreover have "set (sgcc_round [(2, 1), (3, 1), (4, 2)]) \<noteq> set ([(2, 1), (3, 1), (4, 2)] :: edge list)"
  proof -
    have "sgcc_round [(2, 1), (3, 1), (4, 2)] = [(2, 1), (3, 1), (4, 1)]"
      by code_simp
    then have "(4, 1) \<in> set (sgcc_round [(2, 1), (3, 1), (4, 2)])" by simp
    moreover have "(4, 1) \<notin> set ([(2, 1), (3, 1), (4, 2)] :: edge list)" by simp
    ultimately show ?thesis by blast
  qed
  ultimately show ?thesis by blast
qed

text \<open>
  Claim C4, as the code has it. The loop of the source is \<open>while True\<close> with a single
  \<open>break\<close>: it has no iteration cap and no error outcome. Whenever a run has not
  converged within \<open>cap\<close> rounds, it goes on, and returns the converged edge list after
  some larger number of rounds.
\<close>

theorem find_components_has_no_cap:
  assumes "find_components_within cap edges = None"
  shows "\<exists>k r. cap < k \<and> find_components_within k edges = Some r \<and> find_components edges = Some r"
proof -
  obtain k r where kr: "find_components_within k edges = Some r" "find_components edges = Some r"
    using find_components_total find_components_imp_within by metis
  have "cap < k"
  proof (rule ccontr)
    assume "\<not> cap < k"
    then have "k \<le> cap" by simp
    with kr(1) have "find_components_within cap edges = Some r"
      by (rule find_components_within_mono)
    with assms show False by simp
  qed
  with kr show ?thesis by blast
qed

text \<open>
  Claim C4, an instance: the edges \<open>(1, 3), (2, 3)\<close> have not converged after one round, and
  the run continues to a result.
\<close>

theorem find_components_has_no_cap_witness:
  "find_components_within 1 [(1, 3), (2, 3)] = None \<and>
   (\<exists>k r. 1 < k \<and> find_components_within k [(1, 3), (2, 3)] = Some r \<and>
      find_components [(1, 3), (2, 3)] = Some r)"
proof -
  have h: "find_components_within 1 [(1, 3), (2, 3)] = None" by code_simp
  show ?thesis using h find_components_has_no_cap [OF h] by simp
qed

text \<open>
  Claim C4, as stated, fails for a cap of one round: on the edges \<open>(1, 3), (2, 3)\<close> the
  change set of the first round is not empty, yet the run raises nothing and returns the
  result of the second round.
\<close>

theorem find_components_cap_counterexample:
  "find_components_within 1 [(1, 3), (2, 3)] = None \<and>
   find_components [(1, 3), (2, 3)] = Some [(3, 1), (2, 1)]"
  by code_simp

section \<open>Both phases preserve the components\<close>

lemma connected_refl [simp]: "connected es u u"
  by (simp add: connected_def)

lemma connected_sym: "connected es u v \<Longrightarrow> connected es v u"
proof -
  assume "connected es u v"
  then have "(u, v) \<in> (set es \<union> (set es)\<inverse>)\<^sup>*" by (simp add: connected_def)
  then have "(v, u) \<in> ((set es \<union> (set es)\<inverse>)\<inverse>)\<^sup>*" by (simp add: rtrancl_converse)
  moreover have "(set es \<union> (set es)\<inverse>)\<inverse> = set es \<union> (set es)\<inverse>" by auto
  ultimately show ?thesis by (simp add: connected_def)
qed

lemma connected_trans: "connected es u v \<Longrightarrow> connected es v w \<Longrightarrow> connected es u w"
  unfolding connected_def by (rule rtrancl_trans)

lemma connected_edge: "(u, v) \<in> set es \<Longrightarrow> connected es u v"
  unfolding connected_def by (rule r_into_rtrancl) simp

lemma connected_nbrs: "v \<in> nbrs (set es) u \<Longrightarrow> connected es u v"
  unfolding nbrs_def using connected_edge connected_sym by blast

lemma connected_local_min: "connected es x (local_min (set es) x)"
  using local_min_in [of "set es" x] connected_nbrs [of _ es x] by auto

lemma connected_transfer:
  assumes "connected a u v"
    and "\<And>x y. (x, y) \<in> set a \<Longrightarrow> connected b x y"
  shows "connected b u v"
proof -
  from assms(1) have "(u, v) \<in> (set a \<union> (set a)\<inverse>)\<^sup>*" by (simp add: connected_def)
  then show ?thesis
  proof (induction rule: rtrancl_induct)
    case base
    show ?case by simp
  next
    case (step y z)
    from step.hyps(2) have "connected b y z"
      using assms(2) connected_sym by blast
    with step.IH show ?case by (rule connected_trans)
  qed
qed

lemma large_star_phase_sound: "(n, m) \<in> set (large_star_phase a) \<Longrightarrow> connected a n m"
proof -
  assume "(n, m) \<in> set (large_star_phase a)"
  then obtain x where x: "n \<in> nbrs (set a) x" "m = local_min (set a) x"
    unfolding in_large_star_phase by blast
  have "connected a n x" using x(1) by (rule connected_sym [OF connected_nbrs])
  moreover have "connected a x m" unfolding x(2) by (rule connected_local_min)
  ultimately show ?thesis by (rule connected_trans)
qed

lemma small_star_phase_sound: "(n, m) \<in> set (small_star_phase b) \<Longrightarrow> connected b n m"
proof -
  assume "(n, m) \<in> set (small_star_phase b)"
  then obtain x where x: "n = x \<or> n \<in> nbrs (set b) x" "m = local_min (set b) x"
    unfolding in_small_star_phase by blast
  have "connected b n x" using x(1) connected_sym connected_nbrs by auto
  moreover have "connected b x m" unfolding x(2) by (rule connected_local_min)
  ultimately show ?thesis by (rule connected_trans)
qed

lemma small_star_phase_complete:
  assumes "(u, v) \<in> set b"
  shows "connected (small_star_phase b) u v"
proof -
  define x where "x = max u v"
  define y where "y = min u v"
  define m where "m = local_min (set b) x"
  have y: "y \<in> nbrs (set b) x" "y \<le> x"
    using assms by (auto simp: x_def y_def nbrs_def max_def min_def)
  have "connected (small_star_phase b) x m"
  proof (cases "x = m")
    case False
    then have "(x, m) \<in> set (small_star_phase b)"
      unfolding in_small_star_phase m_def by blast
    then show ?thesis by (rule connected_edge)
  qed simp
  moreover have "connected (small_star_phase b) y m"
  proof (cases "y = m")
    case False
    then have "(y, m) \<in> set (small_star_phase b)"
      unfolding in_small_star_phase m_def using y by blast
    then show ?thesis by (rule connected_edge)
  qed simp
  ultimately have "connected (small_star_phase b) x y"
    using connected_sym connected_trans by blast
  then show ?thesis
    using connected_sym by (auto simp: x_def y_def max_def min_def split: if_splits)
qed

lemma large_star_phase_complete_less:
  assumes "n \<in> nbrs (set a) x" "x < n"
  shows "connected (large_star_phase a) n x"
proof -
  define c where "c = Min (insert 0 (fst ` set a \<union> snd ` set a))"
  have c: "c \<le> y" if "y \<in> nbrs (set a) z" for y z
  proof -
    from that have "y \<in> insert 0 (fst ` set a \<union> snd ` set a)" by (force simp: nbrs_def)
    then show ?thesis unfolding c_def by (intro Min_le) simp_all
  qed
  have "\<forall>n. n \<in> nbrs (set a) x \<and> x < n \<and> c \<le> x \<longrightarrow> connected (large_star_phase a) n x"
  proof (induction x rule: measure_induct_rule [where f = "\<lambda>x. nat (x - c)"])
    case (less x)
    show ?case
    proof (intro allI impI)
      fix n assume n: "n \<in> nbrs (set a) x \<and> x < n \<and> c \<le> x"
      define m where "m = local_min (set a) x"
      from n have nm: "(n, m) \<in> set (large_star_phase a)"
        unfolding in_large_star_phase m_def by blast
      show "connected (large_star_phase a) n x"
      proof (cases "m = x")
        case True
        with nm show ?thesis by (simp add: connected_edge)
      next
        case False
        have mx: "m \<in> nbrs (set a) x" "m < x"
          using False local_min_in [of "set a" x] local_min_le_self [of "set a" x]
          by (auto simp: m_def)
        then have xm: "x \<in> nbrs (set a) m" by (auto simp: nbrs_def)
        have "c \<le> m" using mx(1) by (rule c)
        with mx(2) n have "nat (m - c) < nat (x - c)" by simp
        from less [OF this] xm mx(2) \<open>c \<le> m\<close> have "connected (large_star_phase a) x m" by blast
        moreover have "connected (large_star_phase a) n m" using nm by (rule connected_edge)
        ultimately show ?thesis using connected_sym connected_trans by blast
      qed
    qed
  qed
  moreover have "c \<le> x"
  proof -
    from assms(1) have "x \<in> nbrs (set a) n" by (auto simp: nbrs_def)
    then show ?thesis by (rule c)
  qed
  ultimately show ?thesis using assms by blast
qed

lemma large_star_phase_complete:
  assumes "(u, v) \<in> set a"
  shows "connected (large_star_phase a) u v"
proof -
  consider "u < v" | "u = v" | "v < u" by linarith
  then show ?thesis
  proof cases
    case 1
    moreover have "v \<in> nbrs (set a) u" using assms by (simp add: nbrs_def)
    ultimately have "connected (large_star_phase a) v u"
      by (rule large_star_phase_complete_less [rotated])
    then show ?thesis by (rule connected_sym)
  next
    case 2
    then show ?thesis by simp
  next
    case 3
    moreover have "u \<in> nbrs (set a) v" using assms by (simp add: nbrs_def)
    ultimately show ?thesis by (rule large_star_phase_complete_less [rotated])
  qed
qed

lemma connected_large_star_phase: "connected (large_star_phase a) u v \<longleftrightarrow> connected a u v"
  using connected_transfer [of "large_star_phase a" u v a] connected_transfer [of a u v "large_star_phase a"]
    large_star_phase_sound large_star_phase_complete by blast

lemma connected_small_star_phase: "connected (small_star_phase b) u v \<longleftrightarrow> connected b u v"
  using connected_transfer [of "small_star_phase b" u v b] connected_transfer [of b u v "small_star_phase b"]
    small_star_phase_sound small_star_phase_complete by blast

lemma connected_find_components:
  "find_components a = Some r \<Longrightarrow> connected r u v \<longleftrightarrow> connected a u v"
  by (induction rule: find_components_induct)
    (simp_all add: connected_large_star_phase connected_small_star_phase)

lemma find_components_result:
  "find_components a = Some r \<Longrightarrow>
     \<exists>a'. r = small_star_phase (large_star_phase a') \<and> set r = set (large_star_phase a')"
  by (induction rule: find_components_induct) auto

section \<open>The shape of the result\<close>

lemma component_subset: "component es n \<subseteq> insert n (fst ` set es \<union> snd ` set es)"
proof
  fix v assume "v \<in> component es n"
  then have "(n, v) \<in> (set es \<union> (set es)\<inverse>)\<^sup>*"
    by (simp add: component_def connected_def)
  then show "v \<in> insert n (fst ` set es \<union> snd ` set es)"
    by (cases rule: rtranclE) force+
qed

lemma finite_component: "finite (component es n)"
  by (rule finite_subset [OF component_subset]) simp

lemma component_min_le: "connected es n v \<Longrightarrow> component_min es n \<le> v"
  unfolding component_min_def by (rule Min_le [OF finite_component]) (simp add: component_def)

lemma component_min_connected: "connected es n (component_min es n)"
proof -
  have "n \<in> component es n" by (simp add: component_def)
  then have "component es n \<noteq> {}" by blast
  then have "component_min es n \<in> component es n"
    unfolding component_min_def by (rule Min_in [OF finite_component])
  then show ?thesis by (simp add: component_def)
qed

lemma component_min_le_self: "component_min es n \<le> n"
  by (rule component_min_le) simp

lemma component_min_eqI:
  assumes "connected es n m" and "\<And>v. connected es n v \<Longrightarrow> m \<le> v"
  shows "component_min es n = m"
  using assms component_min_le [of es n m] component_min_connected [of es n]
  by (simp add: order.antisym)

lemma component_min_cong:
  assumes "\<And>v. connected r n v \<longleftrightarrow> connected a n v"
  shows "component_min r n = component_min a n"
  using assms by (simp add: component_min_def component_def)

lemma component_min_find_components:
  "find_components a = Some r \<Longrightarrow> component_min r n = component_min a n"
  by (rule component_min_cong) (rule connected_find_components)

lemma component_min_idem: "component_min es (component_min es n) = component_min es n"
proof (rule component_min_eqI)
  show "connected es (component_min es n) (component_min es n)" by simp
  fix v assume "connected es (component_min es n) v"
  with component_min_connected [of es n] have "connected es n v" by (rule connected_trans)
  then show "component_min es n \<le> v" by (rule component_min_le)
qed

lemma converged_single_valued:
  assumes down: "downward (set b)" and conv: "set (small_star_phase b) = set b"
  shows "single_valued_edges (set b)"
proof (rule ccontr)
  assume "\<not> single_valued_edges (set b)"
  define Bad where "Bad = {n. \<exists>m m'. (n, m) \<in> set b \<and> (n, m') \<in> set b \<and> m \<noteq> m'}"
  have "Bad \<subseteq> fst ` set b" by (force simp: Bad_def)
  then have fin: "finite Bad" by (rule finite_subset) simp
  have ne: "Bad \<noteq> {}"
    using \<open>\<not> single_valued_edges (set b)\<close> by (auto simp: Bad_def single_valued_edges_def)
  define n where "n = Max Bad"
  have "n \<in> Bad" unfolding n_def using fin ne by (rule Max_in)
  then obtain m m' where mm: "(n, m) \<in> set b" "(n, m') \<in> set b" "m \<noteq> m'"
    by (auto simp: Bad_def)
  then obtain s where s: "(n, s) \<in> set b" "s \<noteq> local_min (set b) n" by metis
  from s(1) have "(n, s) \<in> small_star_edge (set b) ` set b"
    using conv small_star_phase_image [OF down] by simp
  then obtain e where e: "e \<in> set b" "small_star_edge (set b) e = (n, s)" by force
  obtain x t where xt: "e = (x, t)" by (cases e)
  have neq: "t \<noteq> local_min (set b) x"
  proof
    assume "t = local_min (set b) x"
    then have "small_star_edge (set b) (x, t) = (x, t)" by (simp add: small_star_edge_def)
    with e(2) xt have "x = n" "t = s" by simp_all
    with \<open>t = local_min (set b) x\<close> s(2) show False by blast
  qed
  with e(2) xt have tn: "t = n" and sl: "s = local_min (set b) x"
    by (simp_all add: small_star_edge_def)
  from e(1) xt tn have xn: "(x, n) \<in> set b" by simp
  with down have "n < x" by (auto simp: downward_def)
  from s(1) down have "s < n" by (auto simp: downward_def)
  have "s \<in> insert x (nbrs (set b) x)"
    unfolding sl by (rule local_min_in) simp
  with \<open>s < n\<close> \<open>n < x\<close> have "s \<in> nbrs (set b) x \<and> s \<le> x" by auto
  then have "(x, s) \<in> set b" using downward_nbrs_le [OF down] by blast
  with xn \<open>s < n\<close> have "x \<in> Bad" by (auto simp: Bad_def)
  then have "x \<le> n" unfolding n_def using fin by (intro Max_ge)
  with \<open>n < x\<close> show False by simp
qed

lemma single_valued_converged:
  assumes down: "downward (set b)" and sv: "single_valued_edges (set b)"
  shows "set (small_star_phase b) = set b"
proof -
  have "small_star_edge (set b) e = e" if "e \<in> set b" for e
  proof -
    obtain x s where e: "e = (x, s)" by (cases e)
    have "local_min (set b) x \<in> insert x (nbrs (set b) x)" by (rule local_min_in) simp
    moreover have "local_min (set b) x \<le> s"
      using that e by (intro local_min_le) (simp_all add: nbrs_def)
    moreover have "s < x" using that e down by (auto simp: downward_def)
    ultimately have "local_min (set b) x \<in> nbrs (set b) x \<and> local_min (set b) x \<le> x" by auto
    then have "(x, local_min (set b) x) \<in> set b" using downward_nbrs_le [OF down] by blast
    with that e sv have "s = local_min (set b) x" by (auto simp: single_valued_edges_def)
    then show ?thesis by (simp add: small_star_edge_def e)
  qed
  then show ?thesis by (simp add: small_star_phase_image [OF down])
qed

text \<open>
  The test that ends the loop, read on the edge sets: a round is the last one exactly when
  its large-star output gives every node at most one smaller node. Nothing in the test
  asks that smaller node to be the least node of the component.
\<close>

lemma round_converged_iff:
  "set (small_star_phase (large_star_phase a)) = set (large_star_phase a) \<longleftrightarrow>
     single_valued_edges (set (large_star_phase a))"
  using converged_single_valued [OF large_star_phase_downward]
    single_valued_converged [OF large_star_phase_downward] by blast

lemma find_components_single_valued:
  assumes "find_components a = Some r"
  shows "single_valued_edges (set r)" "downward (set r)" "distinct r"
proof -
  from assms obtain a' where r: "r = small_star_phase (large_star_phase a')"
    and eq: "set r = set (large_star_phase a')"
    using find_components_result by blast
  show "downward (set r)" "distinct r"
    unfolding r by (rule small_star_phase_downward, rule distinct_small_star_phase)
  have "single_valued_edges (set (large_star_phase a'))"
    using eq unfolding r by (intro converged_single_valued large_star_phase_downward)
  then show "single_valued_edges (set r)" by (simp add: eq)
qed

lemma downward_path_le:
  assumes "downward R" and "(v, n) \<in> R\<^sup>*"
  shows "n \<le> v"
  using assms(2)
proof (induction rule: rtrancl_induct)
  case base
  show ?case by simp
next
  case (step y z)
  from assms(1) step.hyps(2) have "z < y" by (auto simp: downward_def)
  with step.IH show ?case by simp
qed

lemma root_reached:
  assumes sv: "single_valued_edges (set r)"
    and root: "\<And>m. (n, m) \<notin> set r"
    and conn: "connected r n v"
  shows "(v, n) \<in> (set r)\<^sup>*"
proof -
  from conn have "(n, v) \<in> (set r \<union> (set r)\<inverse>)\<^sup>*" by (simp add: connected_def)
  then show ?thesis
  proof (induction rule: rtrancl_induct)
    case base
    show ?case by simp
  next
    case (step y z)
    from step.hyps(2) show ?case
    proof
      assume yz: "(y, z) \<in> set r"
      from step.IH show ?thesis
      proof (cases rule: converse_rtranclE)
        case base
        with yz root show ?thesis by simp
      next
        case (step y')
        with yz sv have "y' = z" by (auto simp: single_valued_edges_def)
        with step(2) show ?thesis by simp
      qed
    next
      assume "(y, z) \<in> (set r)\<inverse>"
      then have "(z, y) \<in> set r" by simp
      then show ?thesis using step.IH by (rule converse_rtrancl_into_rtrancl)
    qed
  qed
qed

lemma root_iff_component_min:
  assumes "single_valued_edges (set r)" "downward (set r)"
  shows "(\<exists>m. (n, m) \<in> set r) \<longleftrightarrow> component_min r n \<noteq> n"
proof
  assume "\<exists>m. (n, m) \<in> set r"
  then obtain m where m: "(n, m) \<in> set r" ..
  then have "component_min r n \<le> m" by (intro component_min_le connected_edge)
  moreover from m assms(2) have "m < n" by (auto simp: downward_def)
  ultimately show "component_min r n \<noteq> n" by simp
next
  assume ne: "component_min r n \<noteq> n"
  show "\<exists>m. (n, m) \<in> set r"
  proof (rule ccontr)
    assume "\<not> ?thesis"
    then have root: "\<And>m. (n, m) \<notin> set r" by blast
    have "component_min r n = n"
    proof (rule component_min_eqI)
      show "connected r n n" by simp
      fix v assume "connected r n v"
      with assms(1) root have "(v, n) \<in> (set r)\<^sup>*" by (rule root_reached)
      with assms(2) show "n \<le> v" by (rule downward_path_le)
    qed
    with ne show False by simp
  qed
qed

section \<open>The result depends on the undirected simple graph only\<close>

lemma local_min_proper_nbrs: "local_min A x = Min (insert x (nbrs A x - {x}))"
proof -
  have "insert x (nbrs A x - {x}) = insert x (nbrs A x)" by blast
  then show ?thesis by (simp add: local_min_def)
qed

lemma large_star_phase_cong:
  assumes "\<And>x. nbrs (set a) x - {x} = nbrs (set a') x - {x}"
  shows "set (large_star_phase a) = set (large_star_phase a')"
proof -
  have lm: "local_min (set a) x = local_min (set a') x" for x
    by (simp add: local_min_proper_nbrs assms)
  have nb: "n \<in> nbrs (set a) x \<and> x < n \<longleftrightarrow> n \<in> nbrs (set a') x \<and> x < n" for n x
    using assms [of x] by (cases "n = x") auto
  have "(n, m) \<in> set (large_star_phase a) \<longleftrightarrow> (n, m) \<in> set (large_star_phase a')" for n m
    unfolding in_large_star_phase lm using nb by blast
  then show ?thesis by auto
qed

lemma small_star_phase_set_cong:
  assumes "set b = set b'"
  shows "set (small_star_phase b) = set (small_star_phase b')"
proof -
  have "(n, m) \<in> set (small_star_phase b) \<longleftrightarrow> (n, m) \<in> set (small_star_phase b')" for n m
    unfolding in_small_star_phase assms ..
  then show ?thesis by auto
qed

lemma large_star_phase_set_cong:
  "set a = set a' \<Longrightarrow> set (large_star_phase a) = set (large_star_phase a')"
  by (rule large_star_phase_cong) simp

lemma find_components_set_cong:
  assumes "find_components a = Some r"
    and "set (large_star_phase a) = set (large_star_phase a')"
  shows "\<exists>r'. find_components a' = Some r' \<and> set r' = set r"
  using assms
proof (induction arbitrary: a' rule: find_components_induct)
  case (converged a)
  have eq: "set (small_star_phase (large_star_phase a')) = set (small_star_phase (large_star_phase a))"
    using converged(2) by (intro small_star_phase_set_cong) simp
  with converged have "set (small_star_phase (large_star_phase a')) = set (large_star_phase a')"
    by simp
  then have "find_components a' = Some (small_star_phase (large_star_phase a'))"
    by (subst find_components_unfold) simp
  with eq show ?case by simp
next
  case (iterate a r)
  have eq: "set (small_star_phase (large_star_phase a')) = set (small_star_phase (large_star_phase a))"
    using iterate.prems by (intro small_star_phase_set_cong) simp
  with iterate.hyps(1) iterate.prems
  have ne: "set (small_star_phase (large_star_phase a')) \<noteq> set (large_star_phase a')"
    by simp
  have "set (large_star_phase (small_star_phase (large_star_phase a))) =
        set (large_star_phase (small_star_phase (large_star_phase a')))"
    using eq by (intro large_star_phase_set_cong) simp
  then obtain r' where "find_components (small_star_phase (large_star_phase a')) = Some r'"
    and "set r' = set r"
    using iterate.IH by blast
  with ne show ?case by (subst find_components_unfold) simp
qed

lemma find_components_mset_cong:
  assumes "\<And>x. nbrs (set a) x - {x} = nbrs (set a') x - {x}"
  shows "map_option mset (find_components a) = map_option mset (find_components a')"
proof -
  obtain r where r: "find_components a = Some r"
    using find_components_total by blast
  moreover have "set (large_star_phase a) = set (large_star_phase a')"
    using assms by (rule large_star_phase_cong)
  ultimately obtain r' where r': "find_components a' = Some r'" "set r' = set r"
    using find_components_set_cong by blast
  have "distinct r" "distinct r'"
    using r r'(1) by (simp_all add: find_components_single_valued(3))
  with r'(2) have "mset r' = mset r"
    by (simp add: set_eq_iff_mset_eq_distinct)
  with r r'(1) show ?thesis by simp
qed

text \<open>
  Claim C8. Self-loop edges cannot affect the result: when the input \<open>edges'\<close> consists of
  the edges of \<open>edges\<close> and of any number of self-pairs, in any order, both inputs give the
  same collection of pairs. (The loop always returns, so both sides are \<open>Some\<close>; the
  results are compared as multisets, an RDD having no order.) The source has no separate
  filtering step: the self-pairs disappear in the first large-star reduce, which emits
  only nodes \<open>n > x\<close>.
\<close>

theorem find_components_ignores_self_loops:
  assumes "\<forall>e\<in>set loops. fst e = snd e"
    and "mset edges' = mset edges + mset loops"
  shows "map_option mset (find_components edges') = map_option mset (find_components edges)"
proof (rule find_components_mset_cong)
  fix x
  from assms(2) have "set_mset (mset edges') = set_mset (mset edges + mset loops)" by simp
  then have "set edges' = set edges \<union> set loops" by simp
  with assms(1) show "nbrs (set edges') x - {x} = nbrs (set edges) x - {x}"
    by (force simp: nbrs_def)
qed

text \<open>Claim C8, an instance: two self-pairs mixed into the edges \<open>(1, 2), (2, 3)\<close>.\<close>

theorem find_components_ignores_self_loops_witness:
  "mset ([(3, 3), (1, 2), (1, 1), (2, 3)] :: edge list) = mset [(1, 2), (2, 3)] + mset [(3, 3), (1, 1)] \<and>
   map_option mset (find_components [(3, 3), (1, 2), (1, 1), (2, 3)]) =
   map_option mset (find_components [(1, 2), (2, 3)])"
proof -
  have h1: "\<forall>e\<in>set ([(3, 3), (1, 1)] :: edge list). fst e = snd e" by simp
  have h2: "mset ([(3, 3), (1, 2), (1, 1), (2, 3)] :: edge list) = mset [(1, 2), (2, 3)] + mset [(3, 3), (1, 1)]"
    by simp
  show ?thesis using h2 find_components_ignores_self_loops [OF h1 h2] by simp
qed

text \<open>
  Claim C9. The result depends on the undirected edges only: two inputs that hold the same
  edges up to repetition and up to the order of the endpoints of each edge give the same
  collection of pairs.
\<close>

theorem find_components_undirected:
  assumes "set edges' \<union> (set edges')\<inverse> = set edges \<union> (set edges)\<inverse>"
  shows "map_option mset (find_components edges') = map_option mset (find_components edges)"
proof (rule find_components_mset_cong)
  fix x
  have nb: "nbrs A x = {y. (x, y) \<in> A \<union> A\<inverse>}" for A :: "edge set"
    by (auto simp: nbrs_def)
  show "nbrs (set edges') x - {x} = nbrs (set edges) x - {x}"
    unfolding nb assms ..
qed

text \<open>
  Claim C9, the instance of the specification: \<open>(1, 2)\<close>, \<open>(2, 1)\<close> and \<open>(1, 2)\<close> again,
  against \<open>(1, 2)\<close> once.
\<close>

theorem find_components_undirected_witness:
  "set ([(1, 2), (2, 1), (1, 2)] :: edge list) \<union> (set ([(1, 2), (2, 1), (1, 2)] :: edge list))\<inverse> =
     set ([(1, 2)] :: edge list) \<union> (set ([(1, 2)] :: edge list))\<inverse> \<and>
   map_option mset (find_components [(1, 2), (2, 1), (1, 2)]) =
     map_option mset (find_components [(1, 2)])"
proof -
  have h: "set ([(1, 2), (2, 1), (1, 2)] :: edge list) \<union> (set ([(1, 2), (2, 1), (1, 2)] :: edge list))\<inverse> =
     set ([(1, 2)] :: edge list) \<union> (set ([(1, 2)] :: edge list))\<inverse>" by auto
  show ?thesis using h find_components_undirected [OF h] by simp
qed

section \<open>The result against the components of the input\<close>

lemma connected_closed_set:
  assumes "connected es u v" and "u \<in> S"
    and "\<And>x y. (x, y) \<in> set es \<Longrightarrow> x \<in> S \<longleftrightarrow> y \<in> S"
  shows "v \<in> S"
proof -
  from assms(1) have "(u, v) \<in> (set es \<union> (set es)\<inverse>)\<^sup>*" by (simp add: connected_def)
  then show ?thesis
  proof (induction rule: rtrancl_induct)
    case base
    show ?case by (rule assms(2))
  next
    case (step y z)
    then show ?case using assms(3) by blast
  qed
qed

lemma component_min_chain: "component_min [(1, 2), (2, 3), (3, 4)] 4 = 1"
proof (rule component_min_eqI)
  let ?es = "[(1, 2), (2, 3), (3, 4)] :: edge list"
  have "connected ?es 4 3" by (rule connected_sym [OF connected_edge]) simp
  moreover have "connected ?es 3 2" by (rule connected_sym [OF connected_edge]) simp
  moreover have "connected ?es 2 1" by (rule connected_sym [OF connected_edge]) simp
  ultimately show "connected ?es 4 1" by (blast intro: connected_trans)
  fix v assume "connected ?es 4 v"
  then have "v \<in> {1, 2, 3, 4}" by (rule connected_closed_set) auto
  then show "1 \<le> v" by auto
qed

text \<open>
  Claim C1, evaluated on the path \<open>1 - 2 - 3 - 4\<close>. The first large-star phase yields
  \<open>(2, 1), (3, 1), (4, 2)\<close>; the small-star phase leaves this list unchanged, the change set
  is empty, and the loop stops in its first round. The result pairs node \<open>4\<close> with \<open>2\<close>,
  while the least node of the component of \<open>4\<close> is \<open>1\<close>.
\<close>

theorem find_components_chain_not_minimum:
  "find_components [(1, 2), (2, 3), (3, 4)] = Some [(2, 1), (3, 1), (4, 2)] \<and>
   component_min [(1, 2), (2, 3), (3, 4)] 4 = 1"
proof
  show "find_components [(1, 2), (2, 3), (3, 4)] = Some [(2, 1), (3, 1), (4, 2)]"
    by code_simp
  show "component_min [(1, 2), (2, 3), (3, 4)] 4 = 1"
    by (rule component_min_chain)
qed

text \<open>
  Claim C5, evaluated on the same path. The list at which the loop stops is not a fixed
  point of the two phases: one more large-star phase turns \<open>(4, 2)\<close> into \<open>(4, 1)\<close>.
\<close>

theorem find_components_chain_not_fixed_point:
  "find_components [(1, 2), (2, 3), (3, 4)] = Some [(2, 1), (3, 1), (4, 2)] \<and>
   large_star_phase [(2, 1), (3, 1), (4, 2)] = [(2, 1), (3, 1), (4, 1)] \<and>
   small_star_phase (large_star_phase [(2, 1), (3, 1), (4, 2)]) = [(2, 1), (3, 1), (4, 1)]"
  by code_simp

text \<open>
  Claim C7. No pair of the result has its node equal to its representative. The source
  returns the converged list as it is: it has no validation step and no error outcome, and
  by this theorem there is no output such a step could reject.
\<close>

theorem find_components_no_self_pair:
  assumes "find_components edges = Some r" and "(n, m) \<in> set r"
  shows "n \<noteq> m"
  using find_components_single_valued(2) [OF assms(1)] assms(2)
  by (auto simp: downward_def)

text \<open>
  Claim C7, an instance: the pair \<open>(5, 4)\<close> of the result for \<open>(1, 2), (2, 3), (4, 5)\<close>.
\<close>

theorem find_components_no_self_pair_witness:
  "find_components [(1, 2), (2, 3), (4, 5)] = Some [(2, 1), (3, 1), (5, 4)] \<and>
   (5, 4) \<in> set ([(2, 1), (3, 1), (5, 4)] :: edge list) \<and> (5 :: int) \<noteq> 4"
proof -
  have h1: "find_components [(1, 2), (2, 3), (4, 5)] = Some [(2, 1), (3, 1), (5, 4)]"
    by code_simp
  have h2: "(5, 4) \<in> set ([(2, 1), (3, 1), (5, 4)] :: edge list)" by simp
  show ?thesis using h1 h2 find_components_no_self_pair [OF h1 h2] by simp
qed

text \<open>
  Claim C10. In every pair \<open>(n, m)\<close> of the result the representative is strictly smaller
  than the node, and the node \<open>n\<close> is not the least node of any component of the input:
  the least node of a component is never the left element of a pair of the result.
\<close>

theorem find_components_representative_smaller:
  assumes "find_components edges = Some r" and "(n, m) \<in> set r"
  shows "m < n \<and> component_min edges v \<noteq> n"
proof
  show "m < n"
    using find_components_single_valued(2) [OF assms(1)] assms(2)
    by (auto simp: downward_def)
  have "connected r n m" using assms(2) by (rule connected_edge)
  then have "connected edges n m" by (simp add: connected_find_components [OF assms(1)])
  then have le: "component_min edges n \<le> m" by (rule component_min_le)
  show "component_min edges v \<noteq> n"
  proof
    assume "component_min edges v = n"
    then have "component_min edges n = n" using component_min_idem [of edges v] by simp
    with le \<open>m < n\<close> show False by simp
  qed
qed

text \<open>
  Claim C10, an instance: the pair \<open>(3, 1)\<close> of the result for \<open>(1, 2), (2, 3), (4, 5)\<close>, and
  the component of node \<open>2\<close>.
\<close>

theorem find_components_representative_smaller_witness:
  "find_components [(1, 2), (2, 3), (4, 5)] = Some [(2, 1), (3, 1), (5, 4)] \<and>
   (3, 1) \<in> set ([(2, 1), (3, 1), (5, 4)] :: edge list) \<and> (1 :: int) < 3 \<and>
   component_min [(1, 2), (2, 3), (4, 5)] 2 \<noteq> 3"
proof -
  have h1: "find_components [(1, 2), (2, 3), (4, 5)] = Some [(2, 1), (3, 1), (5, 4)]"
    by code_simp
  have h2: "(3, 1) \<in> set ([(2, 1), (3, 1), (5, 4)] :: edge list)" by simp
  show ?thesis using h1 h2 find_components_representative_smaller [OF h1 h2, of 2] by simp
qed

subsection \<open>One pair for every node but the least of its component\<close>

text \<open>
  Claim C2, as stated, fails on scenario A of the specification: for the edges
  \<open>(1, 2), (2, 3), (4, 5)\<close> the result is \<open>(2, 1), (3, 1), (5, 4)\<close>. The nodes \<open>1\<close> and \<open>4\<close>
  appear in input edges and are the left element of no pair: the small-star reduce emits
  \<open>(n, minimum)\<close> only for \<open>n \<noteq> minimum\<close>.
\<close>

theorem find_components_scenario_A_counterexample:
  "find_components [(1, 2), (2, 3), (4, 5)] = Some [(2, 1), (3, 1), (5, 4)] \<and>
   1 \<notin> fst ` set ([(2, 1), (3, 1), (5, 4)] :: edge list) \<and>
   4 \<notin> fst ` set ([(2, 1), (3, 1), (5, 4)] :: edge list)"
proof -
  have "find_components [(1, 2), (2, 3), (4, 5)] = Some [(2, 1), (3, 1), (5, 4)]"
    by code_simp
  then show ?thesis by simp
qed

lemma find_components_entry_iff:
  assumes "find_components edges = Some r"
  shows "(\<exists>m. (n, m) \<in> set r) \<longleftrightarrow> component_min edges n \<noteq> n"
  using root_iff_component_min [OF find_components_single_valued(1,2) [OF assms], of n]
    component_min_find_components [OF assms, of n] by simp

text \<open>
  Claim C2, as the code has it. The result holds no pair twice. A node that is not the
  least node of its component in the input is the left element of exactly one pair of the
  result; the least node of a component, and with it every node that appears in no edge
  or in self-pairs only, is the left element of none.
\<close>

theorem find_components_one_pair_per_node:
  assumes "find_components edges = Some r"
  shows "distinct r \<and>
         (component_min edges n \<noteq> n \<longrightarrow> (\<exists>!m. (n, m) \<in> set r)) \<and>
         (component_min edges n = n \<longrightarrow> (\<forall>m. (n, m) \<notin> set r))"
proof (intro conjI impI)
  show "distinct r" using assms by (rule find_components_single_valued(3))
  show "\<forall>m. (n, m) \<notin> set r" if "component_min edges n = n"
    using that find_components_entry_iff [OF assms, of n] by blast
  show "\<exists>!m. (n, m) \<in> set r" if "component_min edges n \<noteq> n"
  proof -
    from that obtain m where "(n, m) \<in> set r"
      using find_components_entry_iff [OF assms, of n] by blast
    moreover have "m' = m" if "(n, m') \<in> set r" for m'
      using find_components_single_valued(1) [OF assms] that \<open>(n, m) \<in> set r\<close>
      by (auto simp: single_valued_edges_def)
    ultimately show ?thesis by blast
  qed
qed

lemma component_min_scenario_A:
  "component_min [(1, 2), (2, 3), (4, 5)] 3 \<noteq> 3"
  "component_min [(1, 2), (2, 3), (4, 5)] 6 = 6"
proof -
  let ?es = "[(1, 2), (2, 3), (4, 5)] :: edge list"
  have "connected ?es 3 2" by (rule connected_sym [OF connected_edge]) simp
  then have "component_min ?es 3 \<le> 2" by (rule component_min_le)
  then show "component_min ?es 3 \<noteq> 3" by simp
  show "component_min ?es 6 = 6"
  proof (rule component_min_eqI)
    show "connected ?es 6 6" by simp
    fix v assume "connected ?es 6 v"
    then have "v \<in> {6}" by (rule connected_closed_set) auto
    then show "6 \<le> v" by simp
  qed
qed

text \<open>
  Claim C2 on scenario A: node \<open>3\<close> has its one pair, and node \<open>6\<close>, which appears in no
  edge, has none.
\<close>

theorem find_components_one_pair_per_node_witness:
  "find_components [(1, 2), (2, 3), (4, 5)] = Some [(2, 1), (3, 1), (5, 4)] \<and>
   distinct ([(2, 1), (3, 1), (5, 4)] :: edge list) \<and>
   component_min [(1, 2), (2, 3), (4, 5)] 3 \<noteq> 3 \<and>
   (\<exists>!m. (3, m) \<in> set ([(2, 1), (3, 1), (5, 4)] :: edge list)) \<and>
   component_min [(1, 2), (2, 3), (4, 5)] 6 = 6 \<and>
   (\<forall>m. (6, m) \<notin> set ([(2, 1), (3, 1), (5, 4)] :: edge list))"
proof -
  have h: "find_components [(1, 2), (2, 3), (4, 5)] = Some [(2, 1), (3, 1), (5, 4)]"
    by code_simp
  show ?thesis
    using h component_min_scenario_A
      find_components_one_pair_per_node [OF h, of 3]
      find_components_one_pair_per_node [OF h, of 6]
    by blast
qed

subsection \<open>The edges one large-star reduce emits\<close>

lemma groupByKey_large_star_map:
  assumes "(x, neighbors) \<in> set (groupByKey (flatMap large_star_map a))"
  shows "set neighbors = nbrs (set a) x"
proof -
  from assms have "neighbors = map snd (filter (\<lambda>kv. fst kv = x) (flatMap large_star_map a))"
    by (simp add: in_groupByKey)
  then have "set neighbors = {v. (x, v) \<in> set (flatMap large_star_map a)}"
    by (simp only: set_group_values)
  then show ?thesis
    unfolding set_large_star_map nbrs_def by auto
qed

lemma in_large_star_phase_group:
  assumes "(x, neighbors) \<in> set (groupByKey (flatMap large_star_map a))"
    and "e \<in> set (large_star_reduce (x, neighbors))"
  shows "e \<in> set (large_star_phase a)"
  using assms by (auto simp: large_star_phase_def cache_def distinct_rdd_def set_flatMap)

subsection \<open>Labels do not grow from round to round\<close>

lemma large_star_label:
  assumes "n \<in> nbrs (set a) x" "x < n"
  shows "\<exists>m. m \<le> x \<and> (n, m) \<in> set (large_star_phase a)"
proof -
  have "(n, local_min (set a) x) \<in> set (large_star_phase a)"
    unfolding in_large_star_phase using assms by blast
  moreover have "local_min (set a) x \<le> x" by (rule local_min_le_self) simp
  ultimately show ?thesis by blast
qed

lemma small_star_label:
  assumes "(n, m) \<in> set b" "m < n"
  shows "\<exists>m'. m' \<le> m \<and> (n, m') \<in> set (small_star_phase b)"
proof -
  have "m \<in> insert n (nbrs (set b) n)" using assms(1) by (simp add: nbrs_def)
  then have le: "local_min (set b) n \<le> m" by (intro local_min_le) simp_all
  with assms(2) have "n \<noteq> local_min (set b) n" by simp
  then have "(n, local_min (set b) n) \<in> set (small_star_phase b)"
    unfolding in_small_star_phase by blast
  with le show ?thesis by blast
qed

lemma sgcc_round_label:
  assumes "(n, m) \<in> set a" "m < n"
  shows "\<exists>m'. m' \<le> m \<and> (n, m') \<in> set (sgcc_round a)"
proof -
  have "n \<in> nbrs (set a) m" using assms(1) by (simp add: nbrs_def)
  then obtain m1 where m1: "m1 \<le> m" "(n, m1) \<in> set (large_star_phase a)"
    using large_star_label assms(2) by blast
  with assms(2) have "m1 < n" by simp
  with m1(2) obtain m' where m': "m' \<le> m1" "(n, m') \<in> set (small_star_phase (large_star_phase a))"
    using small_star_label by blast
  from m'(1) m1(1) have "m' \<le> m" by simp
  with m'(2) show ?thesis unfolding sgcc_round_def by blast
qed

lemma sgcc_round_downward: "downward (set (sgcc_round a))"
  unfolding sgcc_round_def by (rule small_star_phase_downward)

lemma label_across_rounds:
  assumes "(n, m) \<in> set a" "m < n"
  shows "\<exists>m'. m' \<le> m \<and> (n, m') \<in> set ((sgcc_round ^^ k) a)"
proof (induction k)
  case 0
  from assms(1) show ?case by auto
next
  case (Suc k)
  then obtain m1 where m1: "m1 \<le> m" "(n, m1) \<in> set ((sgcc_round ^^ k) a)" by blast
  with assms(2) have "m1 < n" by simp
  with m1(2) obtain m' where m': "m' \<le> m1" "(n, m') \<in> set (sgcc_round ((sgcc_round ^^ k) a))"
    using sgcc_round_label by blast
  from m'(1) m1(1) have "m' \<le> m" by simp
  with m'(2) show ?case by auto
qed

lemma label_in_result:
  assumes "find_components a = Some r"
  shows "(n, m) \<in> set a \<Longrightarrow> m < n \<Longrightarrow> \<exists>m'. m' \<le> m \<and> (n, m') \<in> set r"
  using assms
proof (induction arbitrary: m rule: find_components_induct)
  case (converged a)
  then show ?case using sgcc_round_label [of n m a] by (simp add: sgcc_round_def)
next
  case (iterate a r)
  from iterate.prems obtain m1 where m1: "m1 \<le> m" "(n, m1) \<in> set (sgcc_round a)"
    using sgcc_round_label by blast
  with iterate.prems(2) have "m1 < n" by simp
  with m1(2) obtain m' where m': "m' \<le> m1" "(n, m') \<in> set r"
    using iterate.IH [of m1] by (auto simp: sgcc_round_def)
  from m'(1) m1(1) have "m' \<le> m" by simp
  with m'(2) show ?case by blast
qed

lemma find_components_sgcc_round:
  "find_components a =
     (if set (sgcc_round a) = set (large_star_phase a) then Some (sgcc_round a)
      else find_components (sgcc_round a))"
  unfolding sgcc_round_def by (rule find_components_unfold)

lemma label_in_result_of_round:
  assumes "find_components a = Some r" "(n, m) \<in> set (sgcc_round a)" "m < n"
  shows "\<exists>m'. m' \<le> m \<and> (n, m') \<in> set r"
proof (cases "set (sgcc_round a) = set (large_star_phase a)")
  case True
  with assms(1) have "r = sgcc_round a" by (simp add: find_components_sgcc_round [of a])
  with assms(2) show ?thesis by auto
next
  case False
  with assms(1) have "find_components (sgcc_round a) = Some r"
    by (simp add: find_components_sgcc_round [of a])
  then show ?thesis using assms(2,3) by (rule label_in_result)
qed

lemma find_components_within_None_funpow:
  "find_components_within j a = None \<Longrightarrow> find_components a = find_components ((sgcc_round ^^ j) a)"
proof (induction j arbitrary: a)
  case 0
  show ?case by simp
next
  case (Suc j)
  from Suc.prems have ne: "set (sgcc_round a) \<noteq> set (large_star_phase a)"
    and n: "find_components_within j (sgcc_round a) = None"
    by (auto simp: find_components_within_Suc sgcc_round_def simp del: find_components_within.simps
        split: if_splits)
  from ne have "find_components a = find_components (sgcc_round a)"
    by (simp add: find_components_sgcc_round [of a])
  also have "\<dots> = find_components ((sgcc_round ^^ j) (sgcc_round a))"
    using n by (rule Suc.IH)
  also have "(sgcc_round ^^ j) (sgcc_round a) = (sgcc_round ^^ Suc j) a"
    by (simp add: funpow_swap1)
  finally show ?case .
qed

lemma connected_sgcc_round: "connected (sgcc_round a) u v \<longleftrightarrow> connected a u v"
  by (simp add: sgcc_round_def connected_small_star_phase connected_large_star_phase)

lemma connected_funpow_sgcc_round: "connected ((sgcc_round ^^ j) a) u v \<longleftrightarrow> connected a u v"
  by (induction j) (simp_all add: connected_sgcc_round)

text \<open>
  Claim C6, as the code has it. Let \<open>(x, neighbors)\<close> be a group of the large-star phase of
  any round of the run on \<open>edges\<close> (the round that starts from the edge list after \<open>j\<close>
  rounds) and \<open>(n, m)\<close> an edge its reduce emits. Then \<open>m\<close> is the least node among \<open>x\<close> and
  its neighbours, \<open>n\<close> is one of the neighbours, and \<open>m \<le> x < n\<close>. The node \<open>m\<close> belongs to
  the component of \<open>n\<close> in the input, hence is no smaller than the least node of that
  component. The bound does not grow across iterations: the edge list after this round
  and after every later round holds a pair \<open>(n, m')\<close> with \<open>m' \<le> m\<close>, the large-star phase of
  every later round emits a pair \<open>(n, m'')\<close> with \<open>m'' \<le> m'\<close>, and when the run reaches this
  round at all, its result holds a pair \<open>(n, m')\<close> with \<open>m' \<le> m\<close>.
\<close>

theorem large_star_reduce_emitted_edge:
  assumes "(x, neighbors) \<in> set (groupByKey (flatMap large_star_map ((sgcc_round ^^ j) edges)))"
    and "(n, m) \<in> set (large_star_reduce (x, neighbors))"
  shows "m = Min (insert x (set neighbors)) \<and> n \<in> set neighbors \<and> m \<le> x \<and> x < n \<and>
         connected edges n m \<and> component_min edges n \<le> m \<and>
         (\<forall>k. \<exists>m' m''. m'' \<le> m' \<and> m' \<le> m \<and>
            (n, m') \<in> set ((sgcc_round ^^ Suc (j + k)) edges) \<and>
            (n, m'') \<in> set (large_star_phase ((sgcc_round ^^ Suc (j + k)) edges))) \<and>
         (\<forall>r. find_components edges = Some r \<and> find_components_within j edges = None \<longrightarrow>
            (\<exists>m'. m' \<le> m \<and> (n, m') \<in> set r))"
proof -
  let ?a = "(sgcc_round ^^ j) edges"
  let ?b = "large_star_phase ?a"
  have nb: "set neighbors = nbrs (set ?a) x"
    using assms(1) by (rule groupByKey_large_star_map)
  from assms(2) have mm: "m = Min (insert x (set neighbors))" and nn: "n \<in> set neighbors"
    and xn: "x < n"
    by (simp_all add: in_large_star_reduce)
  have m: "m = local_min (set ?a) x" by (simp add: mm nb local_min_def)
  have mx: "m \<le> x" unfolding m by (rule local_min_le_self) simp
  with xn have mn: "m < n" by simp
  have nm: "(n, m) \<in> set ?b" using assms by (rule in_large_star_phase_group)
  then have "connected ?a n m" by (rule large_star_phase_sound)
  then have conn: "connected edges n m" by (simp add: connected_funpow_sgcc_round)
  then have cm: "component_min edges n \<le> m" by (rule component_min_le)
  from nm mn obtain m1 where m1: "m1 \<le> m" "(n, m1) \<in> set (sgcc_round ?a)"
    using small_star_label unfolding sgcc_round_def by blast
  with mn have m1n: "m1 < n" by simp
  have iter: "\<exists>m' m''. m'' \<le> m' \<and> m' \<le> m \<and>
            (n, m') \<in> set ((sgcc_round ^^ Suc (j + k)) edges) \<and>
            (n, m'') \<in> set (large_star_phase ((sgcc_round ^^ Suc (j + k)) edges))" for k
  proof -
    have "Suc (j + k) = k + Suc j" by simp
    then have eq: "(sgcc_round ^^ Suc (j + k)) edges = (sgcc_round ^^ k) (sgcc_round ?a)"
      by (simp only: funpow_add o_apply funpow.simps)
    from m1(2) m1n obtain m' where m': "m' \<le> m1" "(n, m') \<in> set ((sgcc_round ^^ k) (sgcc_round ?a))"
      using label_across_rounds by blast
    with m1n have "m' < n" by simp
    moreover have "n \<in> nbrs (set ((sgcc_round ^^ k) (sgcc_round ?a))) m'"
      using m'(2) by (simp add: nbrs_def)
    ultimately obtain m'' where m'': "m'' \<le> m'"
      "(n, m'') \<in> set (large_star_phase ((sgcc_round ^^ k) (sgcc_round ?a)))"
      using large_star_label by blast
    from m'(1) m1(1) have "m' \<le> m" by simp
    with m'(2) m'' show ?thesis unfolding eq by blast
  qed
  have res: "\<exists>m'. m' \<le> m \<and> (n, m') \<in> set r"
    if "find_components edges = Some r \<and> find_components_within j edges = None" for r
  proof -
    from that have "find_components ?a = Some r"
      using find_components_within_None_funpow [of j edges] by simp
    then obtain m' where m': "m' \<le> m1" "(n, m') \<in> set r"
      using m1(2) m1n label_in_result_of_round by blast
    from m'(1) m1(1) have "m' \<le> m" by simp
    with m'(2) show ?thesis by blast
  qed
  from mm nn mx xn conn cm iter res show ?thesis by blast
qed

text \<open>
  Claim C6, an instance: the group of node \<open>3\<close> in the first round on the path
  \<open>1 - 2 - 3 - 4\<close>.
\<close>

theorem large_star_reduce_emitted_edge_witness:
  "(3, [2, 4]) \<in> set (groupByKey (flatMap large_star_map ((sgcc_round ^^ 0) [(1, 2), (2, 3), (3, 4)]))) \<and>
   (4, 2) \<in> set (large_star_reduce (3, [2, 4])) \<and>
   (2 :: int) = Min (insert 3 (set [2, 4])) \<and> (4 :: int) \<in> set [2, 4] \<and>
   (2 :: int) \<le> 3 \<and> (3 :: int) < 4 \<and> connected [(1, 2), (2, 3), (3, 4)] 4 2 \<and>
   component_min [(1, 2), (2, 3), (3, 4)] 4 \<le> 2 \<and>
   (\<forall>k. \<exists>m' m''. m'' \<le> m' \<and> m' \<le> 2 \<and>
      (4, m') \<in> set ((sgcc_round ^^ Suc (0 + k)) [(1, 2), (2, 3), (3, 4)]) \<and>
      (4, m'') \<in> set (large_star_phase ((sgcc_round ^^ Suc (0 + k)) [(1, 2), (2, 3), (3, 4)]))) \<and>
   find_components [(1, 2), (2, 3), (3, 4)] = Some [(2, 1), (3, 1), (4, 2)] \<and>
   find_components_within 0 [(1, 2), (2, 3), (3, 4)] = None \<and>
   (\<exists>m'. m' \<le> 2 \<and> (4, m') \<in> set ([(2, 1), (3, 1), (4, 2)] :: edge list))"
proof -
  have h1: "(3, [2, 4]) \<in> set (groupByKey (flatMap large_star_map ((sgcc_round ^^ 0) [(1, 2), (2, 3), (3, 4)])))"
    by code_simp
  have h2: "(4, 2) \<in> set (large_star_reduce (3, [2, 4]))"
    by code_simp
  have h3: "find_components [(1, 2), (2, 3), (3, 4)] = Some [(2, 1), (3, 1), (4, 2)]"
    by code_simp
  have h4: "find_components_within 0 [(1, 2), (2, 3), (3, 4)] = None"
    by simp
  show ?thesis
    using h1 h2 h3 h4 large_star_reduce_emitted_edge [OF h1 h2] by blast
qed

text \<open>
  Claim C6, as stated, fails on the same group: it emits \<open>(4, 2)\<close>, and \<open>2\<close> is larger than
  \<open>1\<close>, the least node of the component of \<open>4\<close>.
\<close>

theorem large_star_reduce_counterexample:
  "(3, [2, 4]) \<in> set (groupByKey (flatMap large_star_map [(1, 2), (2, 3), (3, 4)])) \<and>
   large_star_reduce (3, [2, 4]) = [(4, 2)] \<and>
   component_min [(1, 2), (2, 3), (3, 4)] 4 = 1 \<and>
   \<not> 2 \<le> component_min [(1, 2), (2, 3), (3, 4)] 4"
proof -
  have "(3, [2, 4]) \<in> set (groupByKey (flatMap large_star_map [(1, 2), (2, 3), (3, 4)]))"
    by code_simp
  moreover have "large_star_reduce (3, [2, 4]) = [(4, 2)]"
    by code_simp
  ultimately show ?thesis by (simp add: component_min_chain)
qed

end
